theory Spec2Isabelle
  imports Complex_Main "HOL-Library.Multiset" "HOL-Library.Product_Lexorder"
begin

section \<open>Data model of \<^verbatim>\<open>install/extract_text_from_image.py\<close>\<close>

text \<open>
  A Python \<^verbatim>\<open>str\<close> is a sequence of Unicode code points, so a text is a list of
  code points (natural numbers), not of bytes. \<open>str\<close> turns an ASCII literal into
  such a list.

  Coordinates are modelled as rational numbers: pixel coordinates are integers or
  short binary fractions, for which the float arithmetic of \<^verbatim>\<open>sum(...) / len(...)\<close>,
  \<^verbatim>\<open>min\<close>, \<^verbatim>\<open>abs\<close> and the comparisons is exact. NaN and rounding are outside the model.

  A point is a pair (x, y); a bounding box is the list of its points, as the OCR engine
  returns it (normally four); a detection is the tuple \<^verbatim>\<open>(bbox, text, confidence)\<close>.
\<close>

type_synonym pystr = "nat list"

definition str :: "string \<Rightarrow> pystr" where
  "str s = map of_char s"

type_synonym point = "rat \<times> rat"
type_synonym bbox = "point list"
type_synonym detection = "bbox \<times> pystr \<times> rat"

text \<open>The exceptions the post-processing code of \<^verbatim>\<open>main\<close> can raise by itself.\<close>

datatype exn = ZeroDivisionError | ValueError

section \<open>Sort keys\<close>

text \<open>
  \<^verbatim>\<open>get_y_center\<close> (source lines 61-64): \<^verbatim>\<open>sum(y_coords) / len(y_coords)\<close>, which raises
  ZeroDivisionError on an empty box.
\<close>

definition get_y_center :: "bbox \<Rightarrow> exn + rat" where
  "get_y_center bbox =
     (let y_coords = map snd bbox
      in if length y_coords = 0 then Inl ZeroDivisionError
         else Inr (sum_list y_coords / of_nat (length y_coords)))"

text \<open>
  \<^verbatim>\<open>get_x_min\<close> (source lines 66-69): \<^verbatim>\<open>min(x_coords)\<close>, which raises ValueError on an
  empty sequence and otherwise scans the list keeping the smallest value seen.
\<close>

definition get_x_min :: "bbox \<Rightarrow> exn + rat" where
  "get_x_min bbox =
     (let x_coords = map fst bbox
      in case x_coords of
           [] \<Rightarrow> Inl ValueError
         | x # xs \<Rightarrow> Inr (foldl min x xs))"

text \<open>
  The key function of line 71, \<^verbatim>\<open>lambda r: (get_y_center(r[0]), get_x_min(r[0]))\<close>:
  the tuple's components are evaluated left to right.
\<close>

definition sort_key_of :: "detection \<Rightarrow> exn + (rat \<times> rat)" where
  "sort_key_of r =
     (case get_y_center (fst r) of
        Inl e \<Rightarrow> Inl e
      | Inr y \<Rightarrow> (case get_x_min (fst r) of
                    Inl e \<Rightarrow> Inl e
                  | Inr x \<Rightarrow> Inr (y, x)))"

text \<open>
  \<^verbatim>\<open>sorted(results, key=...)\<close> first computes the key of every element, in input
  order (the first exception aborts the call), then sorts stably on the keys alone.
  Tuples of numbers compare lexicographically, which is the order of
  \<open>rat \<times> rat\<close> here; \<open>sort_key\<close> is the stable insertion sort of the list library.
\<close>

fun keyed :: "detection list \<Rightarrow> exn + ((rat \<times> rat) \<times> detection) list" where
  "keyed [] = Inr []"
| "keyed (r # rs) =
     (case sort_key_of r of
        Inl e \<Rightarrow> Inl e
      | Inr k \<Rightarrow> (case keyed rs of
                    Inl e \<Rightarrow> Inl e
                  | Inr krs \<Rightarrow> Inr ((k, r) # krs)))"

definition sorted_results :: "detection list \<Rightarrow> exn + detection list" where
  "sorted_results results =
     (case keyed results of
        Inl e \<Rightarrow> Inl e
      | Inr krs \<Rightarrow> Inr (map snd (sort_key fst krs)))"

section \<open>Grouping into lines\<close>

definition y_tolerance :: rat where
  "y_tolerance = 10"

text \<open>The three variables of the loop of lines 74-90.\<close>

record loop_state =
  line_groups :: "detection list list"
  current_line :: "detection list"
  last_y :: "rat option"

definition init_state :: loop_state where
  "init_state = \<lparr>line_groups = [], current_line = [], last_y = None\<rparr>"

text \<open>One iteration of the loop body (lines 79-90).\<close>

definition loop_body :: "loop_state \<Rightarrow> detection \<Rightarrow> exn + loop_state" where
  "loop_body s d =
     (case get_y_center (fst d) of
        Inl e \<Rightarrow> Inl e
      | Inr current_y \<Rightarrow>
          (let s1 = (case last_y s of
                       None \<Rightarrow> s
                     | Some ly \<Rightarrow>
                         if \<bar>current_y - ly\<bar> > y_tolerance then
                           (if current_line s \<noteq> [] then
                              s\<lparr>line_groups := line_groups s @ [current_line s],
                                current_line := []\<rparr>
                            else s)
                         else s)
           in Inr (s1\<lparr>current_line := current_line s1 @ [d],
                      last_y := Some current_y\<rparr>)))"

fun loop :: "loop_state \<Rightarrow> detection list \<Rightarrow> exn + loop_state" where
  "loop s [] = Inr s"
| "loop s (d # ds) =
     (case loop_body s d of
        Inl e \<Rightarrow> Inl e
      | Inr s' \<Rightarrow> loop s' ds)"

text \<open>Lines 92-94: the last line is added when it is not empty.\<close>

definition add_last_line :: "loop_state \<Rightarrow> detection list list" where
  "add_last_line s =
     (if current_line s \<noteq> [] then line_groups s @ [current_line s]
      else line_groups s)"

text \<open>The value of \<^verbatim>\<open>line_groups\<close> after line 94, for a list that is already sorted.\<close>

definition group_lines :: "detection list \<Rightarrow> exn + detection list list" where
  "group_lines sorted_ds =
     (case loop init_state sorted_ds of
        Inl e \<Rightarrow> Inl e
      | Inr s \<Rightarrow> Inr (add_last_line s))"

section \<open>Text assembly\<close>

text \<open>\<^verbatim>\<open>sep.join(parts)\<close>.\<close>

fun join :: "pystr \<Rightarrow> pystr list \<Rightarrow> pystr" where
  "join sep [] = []"
| "join sep [x] = x"
| "join sep (x # y # ys) = x @ sep @ join sep (y # ys)"

definition text_of :: "detection \<Rightarrow> pystr" where
  "text_of d = fst (snd d)"

text \<open>Lines 97-102: one string per line group whose list of parts is not empty.\<close>

fun extracted_lines :: "detection list list \<Rightarrow> pystr list" where
  "extracted_lines [] = []"
| "extracted_lines (line_group # rest) =
     (let line_text_parts = map text_of line_group
      in if line_text_parts \<noteq> [] then join (str '' '') line_text_parts # extracted_lines rest
         else extracted_lines rest)"

text \<open>The line groups of an unsorted detection list: lines 71-94.\<close>

definition line_groups_of :: "detection list \<Rightarrow> exn + detection list list" where
  "line_groups_of results =
     (case sorted_results results of
        Inl e \<Rightarrow> Inl e
      | Inr sorted_ds \<Rightarrow> group_lines sorted_ds)"

text \<open>Line 105: the Extracted Document, lines joined by the newline character (code point 10).\<close>

definition extracted_text :: "detection list \<Rightarrow> exn + pystr" where
  "extracted_text results =
     (case line_groups_of results of
        Inl e \<Rightarrow> Inl e
      | Inr groups \<Rightarrow> Inr (join [10] (extracted_lines groups)))"

section \<open>The program\<close>

text \<open>
  \<^verbatim>\<open>str.isspace\<close> for one code point: the code points Python's Unicode database
  classifies as whitespace.
\<close>

definition isspace :: "nat \<Rightarrow> bool" where
  "isspace c \<longleftrightarrow>
     (9 \<le> c \<and> c \<le> 13) \<or> (28 \<le> c \<and> c \<le> 32) \<or> c = 133 \<or> c = 160 \<or> c = 5760 \<or>
     (8192 \<le> c \<and> c \<le> 8202) \<or> c = 8232 \<or> c = 8233 \<or> c = 8239 \<or> c = 8287 \<or> c = 12288"

text \<open>\<^verbatim>\<open>s.strip()\<close>: leading and trailing whitespace removed.\<close>

definition strip :: "pystr \<Rightarrow> pystr" where
  "strip s = rev (dropWhile isspace (rev (dropWhile isspace s)))"

text \<open>
  What \<^verbatim>\<open>main\<close> reads from its environment: the argument vector (program name first),
  which paths exist, whether \<^verbatim>\<open>import easyocr\<close> succeeds, and what constructing the
  reader and calling \<^verbatim>\<open>readtext\<close> on a path gives: the detections, or the message of
  the exception raised.
\<close>

record env =
  argv :: "pystr list"
  path_exists :: "pystr \<Rightarrow> bool"
  easyocr_importable :: bool
  readtext :: "pystr \<Rightarrow> pystr + detection list"

text \<open>
  What \<^verbatim>\<open>main\<close> does: its return value and what it wrote to the two streams. Writing
  to a stream is taken to succeed; a \<^verbatim>\<open>print\<close> that raises is outside the model.
\<close>

record outcome =
  exit_code :: int
  stdout :: pystr
  stderr :: pystr

definition write_error :: "pystr \<Rightarrow> outcome" where
  "write_error message = \<lparr>exit_code = 1, stdout = [], stderr = message @ [10]\<rparr>"

text \<open>
  \<^verbatim>\<open>str(e)\<close> for the exceptions of the post-processing code. The ValueError of
  \<^verbatim>\<open>min\<close> is never reached, since an empty box already fails in \<^verbatim>\<open>get_y_center\<close>
  (lemma \<open>extracted_text_raises\<close> below); the wording of its message depends on the
  Python version.
\<close>

fun exn_message :: "exn \<Rightarrow> pystr" where
  "exn_message ZeroDivisionError = str ''division by zero''"
| "exn_message ValueError = str ''min() arg is an empty sequence''"

definition extraction_failed :: "pystr \<Rightarrow> outcome" where
  "extraction_failed msg = write_error (str ''Error: EasyOCR text extraction failed: '' @ msg)"

definition main :: "env \<Rightarrow> outcome" where
  "main e =
     (if length (argv e) \<noteq> 2 then
        write_error (str ''Usage: extract_text_from_image.py <image_path>'')
      else
        let image_path = argv e ! 1 in
        if \<not> path_exists e image_path then
          write_error (str ''Error: Image file does not exist: '' @ image_path)
        else if \<not> easyocr_importable e then
          write_error (str ''Error: easyocr module not found. Please install it with: pip install easyocr'')
        else
          (case readtext e image_path of
             Inl msg \<Rightarrow> extraction_failed msg
           | Inr results \<Rightarrow>
               (case extracted_text results of
                  Inl ex \<Rightarrow> extraction_failed (exn_message ex)
                | Inr txt \<Rightarrow>
                    if strip txt = [] then \<lparr>exit_code = 1, stdout = [], stderr = []\<rparr>
                    else \<lparr>exit_code = 0, stdout = txt @ [10], stderr = []\<rparr>)))"

section \<open>Notions used to state the properties\<close>

text \<open>
  The values the two key functions return on a detection (0 stands in where they raise,
  which the statements below exclude by \<open>well_formed\<close>).
\<close>

definition y_center :: "detection \<Rightarrow> rat" where
  "y_center d = (case get_y_center (fst d) of Inr y \<Rightarrow> y | Inl e \<Rightarrow> 0)"

definition x_min :: "detection \<Rightarrow> rat" where
  "x_min d = (case get_x_min (fst d) of Inr x \<Rightarrow> x | Inl e \<Rightarrow> 0)"

definition key_of :: "detection \<Rightarrow> rat \<times> rat" where
  "key_of d = (y_center d, x_min d)"

text \<open>Every bounding box has at least one point, so that no key function raises.\<close>

definition well_formed :: "detection list \<Rightarrow> bool" where
  "well_formed ds \<longleftrightarrow> list_all (\<lambda>d. fst d \<noteq> []) ds"

text \<open>
  The number of the group that holds position \<open>i\<close> of the concatenation of the groups,
  and the position inside that group.
\<close>

fun group_index :: "'a list list \<Rightarrow> nat \<Rightarrow> nat" where
  "group_index [] i = 0"
| "group_index (g # gs) i = (if i < length g then 0 else Suc (group_index gs (i - length g)))"

fun group_offset :: "'a list list \<Rightarrow> nat \<Rightarrow> nat" where
  "group_offset [] i = i"
| "group_offset (g # gs) i = (if i < length g then i else group_offset gs (i - length g))"

text \<open>
  A closed form of the loop, used in the proofs only: the groups produced from a
  non-empty current line \<open>cur\<close> whose last member is \<open>prev\<close>, and the detections still
  to come.
\<close>

fun lines_from :: "detection list \<Rightarrow> detection \<Rightarrow> detection list \<Rightarrow> detection list list" where
  "lines_from cur prev [] = [cur]"
| "lines_from cur prev (d # ds) =
     (if \<bar>y_center d - y_center prev\<bar> > y_tolerance then cur # lines_from [d] d ds
      else lines_from (cur @ [d]) d ds)"

section \<open>Example detections\<close>

text \<open>The detections of the specification's examples, with arbitrary confidences.\<close>

definition hello :: detection where
  "hello = ([(0, 0), (10, 0), (10, 5), (0, 5)], str ''Hello'', 9 / 10)"

definition world :: detection where
  "world = ([(20, 1), (30, 1), (30, 6), (20, 6)], str ''World'', 4 / 5)"

definition goodbye :: detection where
  "goodbye = ([(0, 50), (10, 50), (10, 55), (0, 55)], str ''Goodbye'', 1 / 2)"

text \<open>
  Three words whose y-centres 2, 10 and 18 are each 8 apart: a skewed line, on which the
  first and the last word are 16 apart.
\<close>

definition skew1 :: detection where
  "skew1 = ([(0, 0), (10, 0), (10, 4), (0, 4)], str ''a'', 1)"

definition skew2 :: detection where
  "skew2 = ([(20, 8), (30, 8), (30, 12), (20, 12)], str ''b'', 1)"

definition skew3 :: detection where
  "skew3 = ([(40, 16), (50, 16), (50, 20), (40, 20)], str ''c'', 1)"

text \<open>Two detections on one line whose recognised text is the empty string.\<close>

definition blank1 :: detection where
  "blank1 = ([(0, 0), (10, 0), (10, 5), (0, 5)], [], 1 / 10)"

definition blank2 :: detection where
  "blank2 = ([(20, 0), (30, 0), (30, 5), (20, 5)], [], 1 / 10)"

text \<open>Two more with empty text, on a line of their own between "Hello" and "Goodbye".\<close>

definition gap1 :: detection where
  "gap1 = ([(0, 25), (10, 25), (10, 30), (0, 30)], [], 1 / 10)"

definition gap2 :: detection where
  "gap2 = ([(20, 25), (30, 25), (30, 30), (20, 30)], [], 1 / 10)"

text \<open>
  An environment in which the command line is right, the image exists, the OCR library
  loads and recognition returns the given detections.
\<close>

definition env_of :: "detection list \<Rightarrow> env" where
  "env_of results =
     \<lparr>argv = [str ''extract_text_from_image.py'', str ''shot.png''],
      path_exists = (\<lambda>p. True),
      easyocr_importable = True,
      readtext = (\<lambda>p. Inr results)\<rparr>"

text \<open>The same two words with other confidence values.\<close>

definition hello_unsure :: detection where
  "hello_unsure = ([(0, 0), (10, 0), (10, 5), (0, 5)], str ''Hello'', 1 / 100)"

definition world_sure :: detection where
  "world_sure = ([(20, 1), (30, 1), (30, 6), (20, 6)], str ''World'', 1)"

text \<open>
  Two detection lists agree up to confidence when they have the same boxes and texts in
  the same order. \<open>forget_confidence\<close> (used in proofs) sets the confidence to 0.
\<close>

definition same_up_to_confidence :: "detection list \<Rightarrow> detection list \<Rightarrow> bool" where
  "same_up_to_confidence ds1 ds2 \<longleftrightarrow>
     map (\<lambda>d. (fst d, text_of d)) ds1 = map (\<lambda>d. (fst d, text_of d)) ds2"

definition forget_confidence :: "detection \<Rightarrow> detection" where
  "forget_confidence d = (fst d, text_of d, 0)"

text \<open>
  A word on the line of "Hello", to its right; and two detections with the same key
  (y-centre 2.5, x-minimum 0) but different boxes and texts.
\<close>

definition there :: detection where
  "there = ([(20, 0), (30, 0), (30, 5), (20, 5)], str ''there'', 3 / 4)"

definition tie1 :: detection where
  "tie1 = ([(0, 0), (10, 0), (10, 5), (0, 5)], str ''x'', 1 / 2)"

definition tie2 :: detection where
  "tie2 = ([(0, 2), (12, 2), (12, 3), (0, 3)], str ''y'', 1 / 2)"

section \<open>The key functions and the sort\<close>

lemmas eval_defs =
  extracted_text_def line_groups_of_def sorted_results_def sort_key_of_def get_y_center_def
  get_x_min_def str_def group_lines_def loop_body_def init_state_def add_last_line_def
  y_tolerance_def text_of_def y_center_def x_min_def key_of_def well_formed_def

lemma get_y_center_Inr: "fst d \<noteq> [] \<Longrightarrow> get_y_center (fst d) = Inr (y_center d)"
  by (simp add: y_center_def get_y_center_def)

lemma get_x_min_Inr: "fst d \<noteq> [] \<Longrightarrow> get_x_min (fst d) = Inr (x_min d)"
  by (cases "fst d") (simp_all add: x_min_def get_x_min_def)

lemma sort_key_of_Inr: "fst d \<noteq> [] \<Longrightarrow> sort_key_of d = Inr (key_of d)"
  by (simp add: sort_key_of_def key_of_def get_y_center_Inr get_x_min_Inr)

lemma sort_key_of_empty: "fst d = [] \<Longrightarrow> sort_key_of d = Inl ZeroDivisionError"
  by (simp add: sort_key_of_def get_y_center_def)

lemma well_formed_Nil: "well_formed []"
  by (simp add: well_formed_def)

lemma well_formed_Cons: "well_formed (d # ds) \<longleftrightarrow> fst d \<noteq> [] \<and> well_formed ds"
  by (simp add: well_formed_def)

lemma well_formed_set: "well_formed ds \<longleftrightarrow> (\<forall>d \<in> set ds. fst d \<noteq> [])"
  by (simp add: well_formed_def list_all_iff)

lemma foldl_min_Min: "foldl min (x::rat) xs = Min (set (x # xs))"
proof (induction xs arbitrary: x)
  case Nil
  then show ?case by simp
next
  case (Cons a xs)
  have "Min (set (x # a # xs)) = Min (set (min x a # xs))"
    by (cases xs) (simp_all add: min.assoc)
  with Cons show ?case by simp
qed

lemma x_min_is_Min: "fst d \<noteq> [] \<Longrightarrow> x_min d = Min (fst ` set (fst d))"
  by (cases "fst d") (simp_all add: x_min_def get_x_min_def foldl_min_Min)

lemma keyed_well_formed: "well_formed ds \<Longrightarrow> keyed ds = Inr (map (\<lambda>d. (key_of d, d)) ds)"
  by (induction ds) (simp_all add: well_formed_Cons sort_key_of_Inr)

lemma keyed_ill_formed: "\<not> well_formed ds \<Longrightarrow> keyed ds = Inl ZeroDivisionError"
proof (induction ds)
  case Nil
  then show ?case by (simp add: well_formed_Nil)
next
  case (Cons d ds)
  show ?case
  proof (cases "fst d = []")
    case True
    then show ?thesis by (simp add: sort_key_of_empty)
  next
    case False
    with Cons.prems have "\<not> well_formed ds" by (simp add: well_formed_Cons)
    with Cons.IH False show ?thesis by (simp add: sort_key_of_Inr)
  qed
qed

lemma insort_key_fst_map:
  "insort_key fst (k d, d) (map (\<lambda>d. (k d, d)) xs) = map (\<lambda>d. (k d, d)) (insort_key k d xs)"
  by (induction xs) simp_all

lemma sort_key_fst_map:
  "sort_key fst (map (\<lambda>d. (k d, d)) xs) = map (\<lambda>d. (k d, d)) (sort_key k xs)"
  by (induction xs) (simp_all add: insort_key_fst_map)

lemma sorted_results_well_formed:
  "well_formed ds \<Longrightarrow> sorted_results ds = Inr (sort_key key_of ds)"
  by (simp add: sorted_results_def keyed_well_formed sort_key_fst_map comp_def)

lemma sorted_results_ill_formed:
  "\<not> well_formed ds \<Longrightarrow> sorted_results ds = Inl ZeroDivisionError"
  by (simp add: sorted_results_def keyed_ill_formed)

lemma well_formed_sort_key: "well_formed (sort_key k ds) \<longleftrightarrow> well_formed ds"
  by (simp add: well_formed_set)

section \<open>The grouping loop\<close>

lemma loop_body_first:
  "fst d \<noteq> [] \<Longrightarrow> last_y s = None \<Longrightarrow>
   loop_body s d = Inr (s\<lparr>current_line := current_line s @ [d], last_y := Some (y_center d)\<rparr>)"
  by (simp add: loop_body_def get_y_center_Inr)

lemma loop_body_next:
  "fst d \<noteq> [] \<Longrightarrow> last_y s = Some ly \<Longrightarrow> current_line s \<noteq> [] \<Longrightarrow>
   loop_body s d =
     Inr (if \<bar>y_center d - ly\<bar> > y_tolerance
          then s\<lparr>line_groups := line_groups s @ [current_line s], current_line := [d],
                 last_y := Some (y_center d)\<rparr>
          else s\<lparr>current_line := current_line s @ [d], last_y := Some (y_center d)\<rparr>)"
  by (simp add: loop_body_def get_y_center_Inr)

lemma loop_lines_from:
  "well_formed ds \<Longrightarrow> current_line s \<noteq> [] \<Longrightarrow> last_y s = Some (y_center prev) \<Longrightarrow>
   \<exists>s'. loop s ds = Inr s' \<and>
        add_last_line s' = line_groups s @ lines_from (current_line s) prev ds"
proof (induction ds arbitrary: s prev)
  case Nil
  then show ?case by (simp add: add_last_line_def)
next
  case (Cons d ds)
  from Cons.prems have d: "fst d \<noteq> []" and wf: "well_formed ds"
    by (simp_all add: well_formed_Cons)
  show ?case
  proof (cases "\<bar>y_center d - y_center prev\<bar> > y_tolerance")
    case True
    let ?t = "s\<lparr>line_groups := line_groups s @ [current_line s], current_line := [d],
                 last_y := Some (y_center d)\<rparr>"
    have step: "loop_body s d = Inr ?t"
      using loop_body_next [OF d Cons.prems(3) Cons.prems(2)] True by simp
    have "\<exists>s'. loop ?t ds = Inr s' \<and>
        add_last_line s' = line_groups ?t @ lines_from (current_line ?t) d ds"
      by (rule Cons.IH [OF wf]) simp_all
    with step True show ?thesis by simp
  next
    case False
    let ?t = "s\<lparr>current_line := current_line s @ [d], last_y := Some (y_center d)\<rparr>"
    have step: "loop_body s d = Inr ?t"
      using loop_body_next [OF d Cons.prems(3) Cons.prems(2)] False by simp
    have "\<exists>s'. loop ?t ds = Inr s' \<and>
        add_last_line s' = line_groups ?t @ lines_from (current_line ?t) d ds"
      by (rule Cons.IH [OF wf]) simp_all
    with step False show ?thesis by simp
  qed
qed

lemma group_lines_Nil: "group_lines [] = Inr []"
  by (simp add: group_lines_def init_state_def add_last_line_def)

lemma group_lines_Cons:
  assumes "well_formed (d # ds)"
  shows "group_lines (d # ds) = Inr (lines_from [d] d ds)"
proof -
  from assms have d: "fst d \<noteq> []" and wf: "well_formed ds"
    by (simp_all add: well_formed_Cons)
  let ?t = "init_state\<lparr>current_line := current_line init_state @ [d], last_y := Some (y_center d)\<rparr>"
  have step: "loop_body init_state d = Inr ?t"
    by (rule loop_body_first [OF d]) (simp add: init_state_def)
  have "\<exists>s'. loop ?t ds = Inr s' \<and>
        add_last_line s' = line_groups ?t @ lines_from (current_line ?t) d ds"
    by (rule loop_lines_from [OF wf]) simp_all
  then obtain s' where "loop ?t ds = Inr s'"
    and "add_last_line s' = line_groups ?t @ lines_from (current_line ?t) d ds"
    by blast
  with step show ?thesis by (simp add: group_lines_def init_state_def)
qed

lemma concat_lines_from: "concat (lines_from cur prev ds) = cur @ ds"
  by (induction ds arbitrary: cur prev) simp_all

lemma lines_from_nonempty: "cur \<noteq> [] \<Longrightarrow> [] \<notin> set (lines_from cur prev ds)"
  by (induction ds arbitrary: cur prev) auto

lemma group_index_lines_from:
  "cur \<noteq> [] \<Longrightarrow> last cur = prev \<Longrightarrow> i + 1 < length (cur @ ds) \<Longrightarrow>
   (group_index (lines_from cur prev ds) i = group_index (lines_from cur prev ds) (i + 1)) \<longleftrightarrow>
   (i + 1 < length cur \<or>
    \<bar>y_center ((cur @ ds) ! (i + 1)) - y_center ((cur @ ds) ! i)\<bar> \<le> y_tolerance)"
proof (induction ds arbitrary: cur prev i)
  case Nil
  then show ?case by simp
next
  case (Cons d ds)
  consider "i + 1 < length cur" | "i + 1 = length cur" | "length cur \<le> i"
    by linarith
  note pos = this
  show ?case
  proof (cases "\<bar>y_center d - y_center prev\<bar> > y_tolerance")
    case True
    from pos show ?thesis
    proof cases
      case 1
      with True show ?thesis by simp
    next
      case 2
      then have "i = length cur - 1" and "i < length cur" by simp_all
      then have "(cur @ d # ds) ! i = prev"
        using Cons.prems(1,2) by (simp add: nth_append last_conv_nth)
      moreover have "(cur @ d # ds) ! (i + 1) = d"
        using 2 by (simp add: nth_append)
      ultimately show ?thesis using True 2 by simp
    next
      case 3
      define j where "j = i - length cur"
      have i: "i = length cur + j" using 3 by (simp add: j_def)
      have j: "j + 1 < length ([d] @ ds)" using Cons.prems(3) i by simp
      have IH: "(group_index (lines_from [d] d ds) j = group_index (lines_from [d] d ds) (j + 1)) \<longleftrightarrow>
          (j + 1 < length [d] \<or>
           \<bar>y_center (([d] @ ds) ! (j + 1)) - y_center (([d] @ ds) ! j)\<bar> \<le> y_tolerance)"
        by (rule Cons.IH [OF _ _ j]) simp_all
      have "(cur @ d # ds) ! i = ([d] @ ds) ! j"
        and "(cur @ d # ds) ! (i + 1) = ([d] @ ds) ! (j + 1)"
        using i by (simp_all add: nth_append)
      with IH True i show ?thesis by simp
    qed
  next
    case False
    have i: "i + 1 < length ((cur @ [d]) @ ds)" using Cons.prems(3) by simp
    have IH: "(group_index (lines_from (cur @ [d]) d ds) i =
           group_index (lines_from (cur @ [d]) d ds) (i + 1)) \<longleftrightarrow>
          (i + 1 < length (cur @ [d]) \<or>
           \<bar>y_center (((cur @ [d]) @ ds) ! (i + 1)) - y_center (((cur @ [d]) @ ds) ! i)\<bar>
             \<le> y_tolerance)"
      by (rule Cons.IH [OF _ _ i]) simp_all
    from pos show ?thesis
    proof cases
      case 1
      with IH False show ?thesis by simp
    next
      case 2
      then have "i = length cur - 1" and "i < length cur" by simp_all
      then have "(cur @ d # ds) ! i = prev"
        using Cons.prems(1,2) by (simp add: nth_append last_conv_nth)
      moreover have "(cur @ d # ds) ! (i + 1) = d"
        using 2 by (simp add: nth_append)
      ultimately show ?thesis using IH False 2 by simp
    next
      case 3
      with IH False show ?thesis by simp
    qed
  qed
qed

lemma line_groups_of_well_formed:
  "well_formed ds \<Longrightarrow> line_groups_of ds = group_lines (sort_key key_of ds)"
  by (simp add: line_groups_of_def sorted_results_well_formed)

lemma group_lines_total:
  "well_formed ds \<Longrightarrow> \<exists>gs. group_lines ds = Inr gs \<and> concat gs = ds \<and> [] \<notin> set gs"
proof (cases ds)
  case Nil
  then show ?thesis by (simp add: group_lines_Nil)
next
  case (Cons d ds')
  assume "well_formed ds"
  with Cons show ?thesis
    by (simp add: group_lines_Cons concat_lines_from lines_from_nonempty)
qed

section \<open>Properties of the Line Reconstructor\<close>

text \<open>
  C6 (single-line merge). The two detections "Hello" and "World" of the specification have
  y-centres 2.5 and 3.5; in either input order they form one line group, and the Extracted
  Document is the single line "Hello World".
\<close>

theorem single_line_merge:
  "y_center hello = 5 / 2 \<and> y_center world = 7 / 2 \<and>
   line_groups_of [hello, world] = Inr [[hello, world]] \<and>
   line_groups_of [world, hello] = Inr [[hello, world]] \<and>
   extracted_text [hello, world] = Inr (str ''Hello World'') \<and>
   extracted_text [world, hello] = Inr (str ''Hello World'')"
  by (simp add: eval_defs hello_def world_def)

text \<open>
  C3 (coverage). When no bounding box is empty, the line groups are computed without an
  exception and their concatenation is a permutation of the input list: every input
  detection is in exactly one group, as often as it occurs in the input. So the group
  sizes add up to the number of input detections; no group is empty; and the empty input
  gives no group at all.
\<close>

theorem coverage:
  assumes "well_formed ds"
  shows "\<exists>gs. line_groups_of ds = Inr gs \<and> mset (concat gs) = mset ds \<and>
      sum_list (map length gs) = length ds \<and> [] \<notin> set gs \<and> (ds = [] \<longrightarrow> gs = [])"
proof -
  let ?sd = "sort_key key_of ds"
  have "well_formed ?sd" using assms by (simp add: well_formed_sort_key)
  then obtain gs where gs: "group_lines ?sd = Inr gs" "concat gs = ?sd" "[] \<notin> set gs"
    using group_lines_total by blast
  have 1: "line_groups_of ds = Inr gs"
    using assms gs(1) by (simp add: line_groups_of_well_formed)
  have 2: "mset (concat gs) = mset ds" using gs(2) by simp
  have "length (concat gs) = length ds" using gs(2) by simp
  then have 3: "sum_list (map length gs) = length ds" by (simp add: length_concat)
  have 4: "ds = [] \<longrightarrow> gs = []"
  proof
    assume "ds = []"
    then have "concat gs = []" using gs(2) by simp
    with gs(3) show "gs = []" by (cases gs) auto
  qed
  from 1 2 3 4 gs(3) show ?thesis by blast
qed

theorem coverage_witness:
  "well_formed [goodbye, world, hello] \<and>
   line_groups_of [goodbye, world, hello] = Inr [[hello, world], [goodbye]] \<and>
   mset (concat [[hello, world], [goodbye]]) = mset [goodbye, world, hello]"
  using coverage [of "[goodbye, world, hello]"]
  by (simp add: eval_defs hello_def world_def goodbye_def)

text \<open>The walk on any list, sorted or not: where the groups change.\<close>

lemma group_lines_adjacent:
  assumes "well_formed ds"
  shows "\<exists>gs. group_lines ds = Inr gs \<and> concat gs = ds \<and>
    (\<forall>i. i + 1 < length ds \<longrightarrow>
       (group_index gs i = group_index gs (i + 1)) =
       (\<bar>y_center (ds ! (i + 1)) - y_center (ds ! i)\<bar> \<le> y_tolerance))"
proof (cases ds)
  case Nil
  then show ?thesis by (simp add: group_lines_Nil)
next
  case (Cons d ds')
  have "(group_index (lines_from [d] d ds') i = group_index (lines_from [d] d ds') (i + 1)) =
       (\<bar>y_center (ds ! (i + 1)) - y_center (ds ! i)\<bar> \<le> y_tolerance)"
    if "i + 1 < length ds" for i
    using group_index_lines_from [of "[d]" d i ds'] that Cons by simp
  with assms Cons show ?thesis
    by (simp add: group_lines_Cons concat_lines_from)
qed

text \<open>
  C1 (grouping walk). When no bounding box is empty, the sort and the walk succeed, the
  groups concatenated are the sorted sequence, and the detections at positions \<open>i\<close> and
  \<open>i + 1\<close> of the sorted sequence are in the same line group if and only if their
  y-centres differ by at most 10 in absolute value: each detection is compared with its
  immediate predecessor, whatever the group's first member is.
\<close>

theorem new_group_iff_far_from_predecessor:
  assumes "well_formed results"
  shows "\<exists>sd gs. sorted_results results = Inr sd \<and> line_groups_of results = Inr gs \<and>
    concat gs = sd \<and>
    (\<forall>i. i + 1 < length sd \<longrightarrow>
       (group_index gs i = group_index gs (i + 1)) =
       (\<bar>y_center (sd ! (i + 1)) - y_center (sd ! i)\<bar> \<le> 10))"
proof -
  let ?sd = "sort_key key_of results"
  have "well_formed ?sd" using assms by (simp add: well_formed_sort_key)
  from group_lines_adjacent [OF this] obtain gs where
    "group_lines ?sd = Inr gs" "concat gs = ?sd"
    "\<forall>i. i + 1 < length ?sd \<longrightarrow>
       (group_index gs i = group_index gs (i + 1)) =
       (\<bar>y_center (?sd ! (i + 1)) - y_center (?sd ! i)\<bar> \<le> y_tolerance)"
    by blast
  with assms show ?thesis
    by (simp add: line_groups_of_well_formed sorted_results_well_formed y_tolerance_def)
qed

text \<open>
  The witness shows the drift: the three skewed words share a group although the first
  and the third are 16 apart, and "Goodbye", 34.5 below the third, starts a new group.
\<close>

theorem new_group_iff_far_from_predecessor_witness:
  "well_formed [goodbye, skew3, skew1, skew2] \<and>
   sorted_results [goodbye, skew3, skew1, skew2] = Inr [skew1, skew2, skew3, goodbye] \<and>
   line_groups_of [goodbye, skew3, skew1, skew2] = Inr [[skew1, skew2, skew3], [goodbye]] \<and>
   group_index [[skew1, skew2, skew3], [goodbye]] 0 =
   group_index [[skew1, skew2, skew3], [goodbye]] 2 \<and>
   \<bar>y_center skew3 - y_center skew1\<bar> = 16 \<and>
   group_index [[skew1, skew2, skew3], [goodbye]] 2 \<noteq>
   group_index [[skew1, skew2, skew3], [goodbye]] 3"
  using new_group_iff_far_from_predecessor [of "[goodbye, skew3, skew1, skew2]"]
  by (simp add: eval_defs goodbye_def skew1_def skew2_def skew3_def)

lemma key_le_iff:
  "key_of a \<le> key_of b \<longleftrightarrow>
   y_center a < y_center b \<or> (y_center a = y_center b \<and> x_min a \<le> x_min b)"
  by (auto simp add: key_of_def less_eq_prod_def)

lemma sort_key_nth_mono:
  "i < j \<Longrightarrow> j < length ds \<Longrightarrow> k (sort_key k ds ! i) \<le> k (sort_key k ds ! j)"
  using sorted_sort_key [of k ds]
  by (simp add: sorted_iff_nth_mono)

lemma get_y_center_four:
  "get_y_center [p1, p2, p3, p4] = Inr ((snd p1 + snd p2 + snd p3 + snd p4) / 4)"
  by (simp add: get_y_center_def)

lemma get_x_min_four:
  "get_x_min [p1, p2, p3, p4] = Inr (Min {fst p1, fst p2, fst p3, fst p4})"
  by (simp add: get_x_min_def min.assoc)

text \<open>
  C2 (sort order). When no bounding box is empty, \<open>sorted_results\<close> returns a permutation
  of the input in which any earlier detection has the smaller y-centre, or the same
  y-centre and an x-minimum that is not larger. For a box of four points the y-centre is
  the arithmetic mean of the four y-coordinates and the x-minimum the least of the four
  x-coordinates.
\<close>

theorem sorted_by_y_center_then_x_min:
  assumes "well_formed results"
  shows "\<exists>sd. sorted_results results = Inr sd \<and> mset sd = mset results \<and>
    (\<forall>i j. i < j \<and> j < length sd \<longrightarrow>
       y_center (sd ! i) < y_center (sd ! j) \<or>
       (y_center (sd ! i) = y_center (sd ! j) \<and> x_min (sd ! i) \<le> x_min (sd ! j))) \<and>
    (\<forall>p1 p2 p3 p4 t c.
       y_center ([p1, p2, p3, p4], t, c) = (snd p1 + snd p2 + snd p3 + snd p4) / 4 \<and>
       x_min ([p1, p2, p3, p4], t, c) = Min {fst p1, fst p2, fst p3, fst p4})"
proof -
  let ?sd = "sort_key key_of results"
  have 1: "sorted_results results = Inr ?sd"
    using assms by (rule sorted_results_well_formed)
  have 2: "mset ?sd = mset results" by simp
  have 3: "y_center (?sd ! i) < y_center (?sd ! j) \<or>
       (y_center (?sd ! i) = y_center (?sd ! j) \<and> x_min (?sd ! i) \<le> x_min (?sd ! j))"
    if "i < j \<and> j < length ?sd" for i j
    using sort_key_nth_mono [of i j results key_of] that by (simp add: key_le_iff)
  have 4: "y_center ([p1, p2, p3, p4], t, c) = (snd p1 + snd p2 + snd p3 + snd p4) / 4 \<and>
       x_min ([p1, p2, p3, p4], t, c) = Min {fst p1, fst p2, fst p3, fst p4}"
    for p1 p2 p3 p4 :: point and t :: pystr and c :: rat
    by (simp add: y_center_def x_min_def get_y_center_four get_x_min_four)
  from 1 2 3 4 show ?thesis by blast
qed

theorem sorted_by_y_center_then_x_min_witness:
  "well_formed [goodbye, world, hello] \<and>
   sorted_results [goodbye, world, hello] = Inr [hello, world, goodbye] \<and>
   y_center hello = 5 / 2 \<and> x_min hello = 0 \<and>
   y_center world = 7 / 2 \<and> x_min world = 20 \<and>
   y_center goodbye = 105 / 2 \<and> x_min goodbye = 0"
  using sorted_by_y_center_then_x_min [of "[goodbye, world, hello]"]
  by (simp add: eval_defs hello_def world_def goodbye_def)

lemma strip_Nil_iff: "strip s = [] \<longleftrightarrow> list_all isspace s"
proof
  assume "strip s = []"
  then have "dropWhile isspace (rev (dropWhile isspace s)) = []"
    by (simp add: strip_def)
  then have all: "\<forall>c \<in> set (dropWhile isspace s). isspace c"
    by simp
  have "dropWhile isspace s = []"
  proof (rule ccontr)
    assume ne: "dropWhile isspace s \<noteq> []"
    then have "\<not> isspace (hd (dropWhile isspace s))" by (rule hd_dropWhile)
    moreover have "hd (dropWhile isspace s) \<in> set (dropWhile isspace s)"
      using ne by simp
    ultimately show False using all by blast
  qed
  then show "list_all isspace s"
    by (simp add: list_all_iff)
next
  assume "list_all isspace s"
  then have d: "dropWhile isspace s = []"
    by (simp add: list_all_iff)
  show "strip s = []" unfolding strip_def d by simp
qed

lemma isspace_space: "list_all isspace (str '' '')"
  by (simp add: str_def isspace_def)

lemma join_all:
  "list_all P sep \<Longrightarrow> list_all (list_all P) parts \<Longrightarrow> list_all P (join sep parts)"
  by (induction sep parts rule: join.induct) simp_all

lemma join_Nil_iff:
  "sep \<noteq> [] \<Longrightarrow> parts \<noteq> [] \<Longrightarrow> join sep parts = [] \<longleftrightarrow> parts = [[]]"
  by (induction sep parts rule: join.induct) simp_all

lemma extracted_lines_map:
  "[] \<notin> set gs \<Longrightarrow> extracted_lines gs = map (\<lambda>g. join (str '' '') (map text_of g)) gs"
  by (induction gs) auto

lemma line_groups_of_Inr:
  assumes "line_groups_of results = Inr gs"
  shows "well_formed results \<and> [] \<notin> set gs"
proof -
  have wf: "well_formed results"
  proof (rule ccontr)
    assume "\<not> well_formed results"
    then have "line_groups_of results = Inl ZeroDivisionError"
      by (simp add: line_groups_of_def sorted_results_ill_formed)
    with assms show False by simp
  qed
  then have "well_formed (sort_key key_of results)" by (simp add: well_formed_sort_key)
  from group_lines_total [OF this] wf assms show ?thesis
    by (auto simp add: line_groups_of_well_formed)
qed

lemma blank_line:
  assumes "g \<noteq> []" and "list_all (\<lambda>d. strip (text_of d) = []) g"
  shows "strip (join (str '' '') (map text_of g)) = [] \<and>
    (join (str '' '') (map text_of g) = [] \<longleftrightarrow> (\<exists>d. g = [d] \<and> text_of d = []))"
proof -
  have "list_all (list_all isspace) (map text_of g)"
    using assms(2) by (simp add: strip_Nil_iff list_all_iff)
  then have "list_all isspace (join (str '' '') (map text_of g))"
    by (rule join_all [OF isspace_space])
  then have 2: "strip (join (str '' '') (map text_of g)) = []"
    by (simp add: strip_Nil_iff)
  have "join (str '' '') (map text_of g) = [] \<longleftrightarrow> map text_of g = [[]]"
    using assms(1) by (intro join_Nil_iff) (simp_all add: str_def)
  also have "\<dots> \<longleftrightarrow> (\<exists>d. g = [d] \<and> text_of d = [])"
    by (cases g) auto
  finally have 3: "join (str '' '') (map text_of g) = [] \<longleftrightarrow> (\<exists>d. g = [d] \<and> text_of d = [])" .
  from 2 3 show ?thesis by blast
qed

text \<open>
  C4 as stated fails: the two detections with empty text form one line group, and the
  line that group contributes is one space character, not the empty string.
\<close>

theorem blank_group_line_counterexample:
  "strip (text_of blank1) = [] \<and> strip (text_of blank2) = [] \<and>
   line_groups_of [blank1, blank2] = Inr [[blank1, blank2]] \<and>
   extracted_lines [[blank1, blank2]] = [[32]] \<and>
   extracted_lines [[blank1, blank2]] \<noteq> [[]] \<and>
   extracted_text [blank1, blank2] = Inr [32]"
  by (simp add: eval_defs blank1_def blank2_def strip_def)

text \<open>
  C4, amended. Take the line groups computed from any detection list, and among them a
  group, at any position, all of whose members have texts that are empty after trimming.
  No group is empty and every group contributes exactly one line, at its own position, so
  no line is dropped; the Extracted Document is these lines joined by newlines. The line
  of the blank group is its members' texts joined by single spaces. That line is empty
  after trimming (it holds whitespace only); it is the empty string exactly when the
  group has a single member whose text is the empty string.
\<close>

theorem blank_group_line:
  assumes "line_groups_of results = Inr gs" and "i < length gs"
    and "list_all (\<lambda>d. strip (text_of d) = []) (gs ! i)"
  shows "[] \<notin> set gs \<and>
    extracted_lines gs = map (\<lambda>g. join (str '' '') (map text_of g)) gs \<and>
    extracted_text results = Inr (join [10] (extracted_lines gs)) \<and>
    length (extracted_lines gs) = length gs \<and>
    extracted_lines gs ! i = join (str '' '') (map text_of (gs ! i)) \<and>
    strip (extracted_lines gs ! i) = [] \<and>
    (extracted_lines gs ! i = [] \<longleftrightarrow> (\<exists>d. gs ! i = [d] \<and> text_of d = []))"
proof -
  from line_groups_of_Inr [OF assms(1)] have ne: "[] \<notin> set gs" by simp
  then have m: "extracted_lines gs = map (\<lambda>g. join (str '' '') (map text_of g)) gs"
    by (rule extracted_lines_map)
  have t: "extracted_text results = Inr (join [10] (extracted_lines gs))"
    using assms(1) by (simp add: extracted_text_def)
  have l: "length (extracted_lines gs) = length gs" using m by simp
  have n: "extracted_lines gs ! i = join (str '' '') (map text_of (gs ! i))"
    using m assms(2) by simp
  have "gs ! i \<noteq> []" using ne assms(2) by (metis nth_mem)
  from blank_line [OF this assms(3)] n
  have b: "strip (extracted_lines gs ! i) = [] \<and>
    (extracted_lines gs ! i = [] \<longleftrightarrow> (\<exists>d. gs ! i = [d] \<and> text_of d = []))"
    by simp
  from ne m t l n b show ?thesis by blast
qed

theorem blank_group_line_witness:
  "line_groups_of [goodbye, gap2, hello, gap1] = Inr [[hello], [gap1, gap2], [goodbye]] \<and>
   (1::nat) < length [[hello], [gap1, gap2], [goodbye]] \<and>
   list_all (\<lambda>d. strip (text_of d) = []) ([[hello], [gap1, gap2], [goodbye]] ! 1) \<and>
   extracted_lines [[hello], [gap1, gap2], [goodbye]] = [str ''Hello'', [32], str ''Goodbye''] \<and>
   extracted_text [goodbye, gap2, hello, gap1] =
     Inr (str ''Hello'' @ [10] @ [32] @ [10] @ str ''Goodbye'') \<and>
   line_groups_of [goodbye, gap1, hello] = Inr [[hello], [gap1], [goodbye]] \<and>
   extracted_text [goodbye, gap1, hello] = Inr (str ''Hello'' @ [10] @ [10] @ str ''Goodbye'')"
  using blank_group_line [of "[goodbye, gap2, hello, gap1]" "[[hello], [gap1, gap2], [goodbye]]" 1]
    blank_group_line [of "[goodbye, gap1, hello]" "[[hello], [gap1], [goodbye]]" 1]
  by (simp add: eval_defs hello_def goodbye_def gap1_def gap2_def strip_def isspace_def)

lemma extracted_text_Nil: "extracted_text [] = Inr []"
  by (simp add: eval_defs)

text \<open>
  C5 (silent empty result). When the command line is right, the image exists, the OCR
  library loads and recognition returns a detection list, and that list is empty or the
  Extracted Document assembled from it is empty or holds whitespace only, \<open>main\<close>
  returns 1 and has written nothing to standard output and nothing to standard error:
  the same outcome in both cases.
\<close>

theorem empty_result_silent:
  assumes "length (argv e) = 2" and "path_exists e (argv e ! 1)" and "easyocr_importable e"
    and "readtext e (argv e ! 1) = Inr results"
    and "results = [] \<or> (\<exists>txt. extracted_text results = Inr txt \<and> list_all isspace txt)"
  shows "main e = \<lparr>exit_code = 1, stdout = [], stderr = []\<rparr>"
proof -
  from assms(5) obtain t where "extracted_text results = Inr t" and "list_all isspace t"
    using extracted_text_Nil by auto
  then have "extracted_text results = Inr t" and "strip t = []"
    by (simp_all add: strip_Nil_iff)
  with assms(1-4) show ?thesis by (simp add: main_def)
qed

theorem empty_result_silent_witness:
  "length (argv (env_of [])) = 2 \<and> path_exists (env_of []) (argv (env_of []) ! 1) \<and>
   easyocr_importable (env_of []) \<and> readtext (env_of []) (argv (env_of []) ! 1) = Inr [] \<and>
   main (env_of []) = \<lparr>exit_code = 1, stdout = [], stderr = []\<rparr> \<and>
   readtext (env_of [blank1, blank2]) (argv (env_of [blank1, blank2]) ! 1) = Inr [blank1, blank2] \<and>
   extracted_text [blank1, blank2] = Inr [32] \<and> list_all isspace [32] \<and>
   main (env_of [blank1, blank2]) = \<lparr>exit_code = 1, stdout = [], stderr = []\<rparr> \<and>
   main (env_of [hello, world]) = \<lparr>exit_code = 0, stdout = str ''Hello World'' @ [10], stderr = []\<rparr>"
  using empty_result_silent [of "env_of []" "[]"]
    empty_result_silent [of "env_of [blank1, blank2]" "[blank1, blank2]"]
  by (simp add: env_of_def main_def eval_defs blank1_def blank2_def hello_def world_def
      strip_def isspace_def)

lemma fst_forget: "fst (forget_confidence d) = fst d"
  by (simp add: forget_confidence_def)

lemma text_of_forget: "text_of (forget_confidence d) = text_of d"
  by (simp add: forget_confidence_def text_of_def)

lemma y_center_forget: "y_center (forget_confidence d) = y_center d"
  by (simp add: y_center_def fst_forget)

lemma key_of_forget: "key_of (forget_confidence d) = key_of d"
  by (simp add: key_of_def y_center_def x_min_def fst_forget)

lemma well_formed_forget: "well_formed (map forget_confidence ds) \<longleftrightarrow> well_formed ds"
  by (simp add: well_formed_set fst_forget)

lemma insort_key_map:
  "(\<And>x. k (f x) = k x) \<Longrightarrow> insort_key k (f x) (map f xs) = map f (insort_key k x xs)"
  by (induction xs) simp_all

lemma sort_key_map:
  "(\<And>x. k (f x) = k x) \<Longrightarrow> sort_key k (map f xs) = map f (sort_key k xs)"
  by (induction xs) (simp_all add: insort_key_map)

lemma lines_from_forget:
  "lines_from (map forget_confidence cur) (forget_confidence prev) (map forget_confidence ds) =
   map (map forget_confidence) (lines_from cur prev ds)"
proof (induction ds arbitrary: cur prev)
  case Nil
  show ?case by simp
next
  case (Cons d ds)
  show ?case
    using Cons [of "[d]" d] Cons [of "cur @ [d]" d] by (simp add: y_center_forget)
qed

lemma group_lines_forget:
  assumes "well_formed ds" and "group_lines ds = Inr gs"
  shows "group_lines (map forget_confidence ds) = Inr (map (map forget_confidence) gs)"
proof (cases ds)
  case Nil
  with assms show ?thesis by (simp add: group_lines_Nil)
next
  case (Cons d ds')
  have "well_formed (forget_confidence d # map forget_confidence ds')"
    using assms(1) Cons well_formed_forget [of ds] by simp
  then have "group_lines (forget_confidence d # map forget_confidence ds') =
      Inr (lines_from [forget_confidence d] (forget_confidence d) (map forget_confidence ds'))"
    by (rule group_lines_Cons)
  moreover have "gs = lines_from [d] d ds'"
    using assms Cons by (simp add: group_lines_Cons)
  ultimately show ?thesis
    using Cons lines_from_forget [of "[d]" d ds'] by simp
qed

lemma extracted_lines_forget:
  "extracted_lines (map (map forget_confidence) gs) = extracted_lines gs"
  by (induction gs) (simp_all add: comp_def text_of_forget)

lemma extracted_text_ill_formed:
  "\<not> well_formed ds \<Longrightarrow> extracted_text ds = Inl ZeroDivisionError"
  by (simp add: extracted_text_def line_groups_of_def sorted_results_ill_formed)

lemma extracted_text_forget:
  "extracted_text (map forget_confidence ds) = extracted_text ds"
proof (cases "well_formed ds")
  case False
  then have "\<not> well_formed (map forget_confidence ds)" by (simp add: well_formed_forget)
  with False show ?thesis by (simp add: extracted_text_ill_formed)
next
  case True
  let ?sd = "sort_key key_of ds"
  have wf: "well_formed ?sd" using True by (simp add: well_formed_sort_key)
  then obtain gs where gs: "group_lines ?sd = Inr gs"
    using group_lines_total by blast
  have s: "sort_key key_of (map forget_confidence ds) = map forget_confidence ?sd"
    by (rule sort_key_map) (rule key_of_forget)
  have "line_groups_of (map forget_confidence ds) = Inr (map (map forget_confidence) gs)"
    using True group_lines_forget [OF wf gs]
    by (simp add: line_groups_of_well_formed well_formed_forget s)
  moreover have "line_groups_of ds = Inr gs"
    using True gs by (simp add: line_groups_of_well_formed)
  ultimately show ?thesis
    by (simp add: extracted_text_def extracted_lines_forget)
qed

lemma same_up_to_confidence_forget:
  "same_up_to_confidence ds1 ds2 \<Longrightarrow> map forget_confidence ds1 = map forget_confidence ds2"
proof -
  assume "same_up_to_confidence ds1 ds2"
  then have "map (\<lambda>p. (fst p, snd p, 0::rat)) (map (\<lambda>d. (fst d, text_of d)) ds1) =
      map (\<lambda>p. (fst p, snd p, 0::rat)) (map (\<lambda>d. (fst d, text_of d)) ds2)"
    by (simp only: same_up_to_confidence_def)
  moreover have "forget_confidence = (\<lambda>d. (fst d, text_of d, 0))"
    by (rule ext) (simp add: forget_confidence_def)
  ultimately show ?thesis by (simp add: comp_def)
qed

text \<open>
  C9 (confidence is ignored). Two detection lists that differ in confidence values only
  give the same result: the same Extracted Document, or the same exception.
\<close>

theorem confidence_is_ignored:
  assumes "same_up_to_confidence ds1 ds2"
  shows "extracted_text ds1 = extracted_text ds2"
proof -
  have "extracted_text ds1 = extracted_text (map forget_confidence ds1)"
    by (simp add: extracted_text_forget)
  also have "\<dots> = extracted_text (map forget_confidence ds2)"
    using assms by (simp add: same_up_to_confidence_forget)
  also have "\<dots> = extracted_text ds2"
    by (simp add: extracted_text_forget)
  finally show ?thesis .
qed

theorem confidence_is_ignored_witness:
  "same_up_to_confidence [world, hello] [world_sure, hello_unsure] \<and>
   [world, hello] \<noteq> [world_sure, hello_unsure] \<and>
   extracted_text [world, hello] = Inr (str ''Hello World'') \<and>
   extracted_text [world_sure, hello_unsure] = Inr (str ''Hello World'')"
  using confidence_is_ignored [of "[world, hello]" "[world_sure, hello_unsure]"]
  by (simp add: same_up_to_confidence_def eval_defs hello_def world_def hello_unsure_def
      world_sure_def)

section \<open>Positions inside the groups, ties and stability\<close>

lemma group_offset_nth:
  "i < length (concat gs) \<Longrightarrow>
   group_index gs i < length gs \<and>
   group_offset gs i < length (gs ! group_index gs i) \<and>
   gs ! group_index gs i ! group_offset gs i = concat gs ! i"
proof (induction gs arbitrary: i)
  case Nil
  then show ?case by simp
next
  case (Cons g gs)
  show ?case
  proof (cases "i < length g")
    case True
    then show ?thesis by (simp add: nth_append)
  next
    case False
    with Cons.prems have "i - length g < length (concat gs)" by simp
    from Cons.IH [OF this] False show ?thesis by (simp add: nth_append)
  qed
qed

lemma group_offset_mono:
  "p < q \<Longrightarrow> group_index gs p = group_index gs q \<Longrightarrow> group_offset gs p < group_offset gs q"
proof (induction gs arbitrary: p q)
  case Nil
  then show ?case by simp
next
  case (Cons g gs)
  show ?case
  proof (cases "q < length g")
    case True
    with Cons.prems show ?thesis by simp
  next
    case False
    with Cons.prems have p: "\<not> p < length g" by (simp split: if_splits)
    with False Cons.prems have "p - length g < q - length g"
      and "group_index gs (p - length g) = group_index gs (q - length g)"
      by simp_all
    from Cons.IH [OF this] p False show ?thesis by simp
  qed
qed

lemma group_index_run:
  assumes "\<forall>i. p \<le> i \<and> i < q \<longrightarrow> group_index gs i = group_index gs (i + 1)"
  shows "p \<le> q \<Longrightarrow> group_index gs p = group_index gs q"
  using assms
proof (induction q)
  case 0
  then show ?case by simp
next
  case (Suc q)
  show ?case
  proof (cases "p = Suc q")
    case True
    then show ?thesis by simp
  next
    case False
    with Suc.prems have pq: "p \<le> q" by simp
    have "group_index gs p = group_index gs q"
      using Suc.IH [OF pq] Suc.prems(2) by simp
    also have "\<dots> = group_index gs (q + 1)"
      using Suc.prems(2) pq by simp
    finally show ?thesis by simp
  qed
qed

lemma y_center_sorted:
  "i \<le> j \<Longrightarrow> j < length ds \<Longrightarrow>
   y_center (sort_key key_of ds ! i) \<le> y_center (sort_key key_of ds ! j)"
proof (cases "i = j")
  case True
  then show ?thesis by simp
next
  case False
  assume "i \<le> j" and j: "j < length ds"
  with False have "i < j" by simp
  from sort_key_nth_mono [OF this j, of key_of] show ?thesis
    by (auto simp add: key_le_iff)
qed

lemma same_y_same_group:
  assumes wf: "well_formed ds"
    and pq: "p \<le> q" "q < length ds"
    and y: "y_center (sort_key key_of ds ! p) = y_center (sort_key key_of ds ! q)"
    and gs: "line_groups_of ds = Inr gs"
  shows "group_index gs p = group_index gs q"
proof -
  let ?sd = "sort_key key_of ds"
  have "well_formed ?sd" using wf by (simp add: well_formed_sort_key)
  from group_lines_adjacent [OF this] gs wf
  have adj: "\<forall>i. i + 1 < length ?sd \<longrightarrow>
       (group_index gs i = group_index gs (i + 1)) =
       (\<bar>y_center (?sd ! (i + 1)) - y_center (?sd ! i)\<bar> \<le> y_tolerance)"
    by (simp add: line_groups_of_well_formed)
  have "group_index gs i = group_index gs (i + 1)" if i: "p \<le> i \<and> i < q" for i
  proof -
    have "y_center (?sd ! p) \<le> y_center (?sd ! i)"
      using i pq by (intro y_center_sorted) simp_all
    moreover have "y_center (?sd ! i) \<le> y_center (?sd ! (i + 1))"
      using i pq by (intro y_center_sorted) simp_all
    moreover have "y_center (?sd ! (i + 1)) \<le> y_center (?sd ! q)"
      using i pq by (intro y_center_sorted) simp_all
    ultimately have "y_center (?sd ! (i + 1)) = y_center (?sd ! i)"
      using y by simp
    moreover have "i + 1 < length ?sd" using i pq by simp
    ultimately show ?thesis using adj by (simp add: y_tolerance_def)
  qed
  then show ?thesis using group_index_run [of p q gs] pq(1) by blast
qed


lemma pair_sorted:
  assumes "key_of a \<le> key_of b"
  shows "sort_key key_of [a, b] = [a, b]"
  using assms by simp

lemma pair_swapped:
  assumes "key_of a < key_of b"
  shows "sort_key key_of [b, a] = [a, b]"
proof -
  have "\<not> key_of b \<le> key_of a" using assms by (simp add: not_le)
  then show ?thesis by simp
qed

lemma pair_one_line:
  assumes "fst a \<noteq> []" and "fst b \<noteq> []" and "y_center a = y_center b"
  shows "group_lines [a, b] = Inr [[a, b]]"
  using assms by (simp add: group_lines_Cons well_formed_Cons well_formed_Nil y_tolerance_def)

lemma pair_text:
  "line_groups_of ds = Inr [[a, b]] \<Longrightarrow>
   extracted_text ds = Inr (text_of a @ str '' '' @ text_of b)"
  by (simp add: extracted_text_def)

lemma same_line_in_order:
  assumes wf: "well_formed results" and a: "a \<in> set results" and b: "b \<in> set results"
    and y: "y_center a = y_center b" and x: "x_min a < x_min b"
  shows "\<exists>gs g i j. line_groups_of results = Inr gs \<and> g \<in> set gs \<and> i < j \<and> j < length g \<and>
      g ! i = a \<and> g ! j = b"
proof -
  let ?sd = "sort_key key_of results"
  have "well_formed ?sd" using wf by (simp add: well_formed_sort_key)
  from group_lines_total [OF this] obtain gs where
    gl: "group_lines ?sd = Inr gs" and cc: "concat gs = ?sd"
    by blast
  have gs: "line_groups_of results = Inr gs"
    using wf gl by (simp add: line_groups_of_well_formed)
  from a obtain p where p: "p < length ?sd" "?sd ! p = a"
    by (metis in_set_conv_nth set_sort)
  from b obtain q where q: "q < length ?sd" "?sd ! q = b"
    by (metis in_set_conv_nth set_sort)
  have "p \<noteq> q" using p q x by auto
  moreover have "\<not> q < p"
  proof
    assume "q < p"
    from sort_key_nth_mono [OF this, of results key_of] p q
    have "key_of b \<le> key_of a" by simp
    with y x show False by (simp add: key_le_iff)
  qed
  ultimately have pq: "p < q" by simp
  have same: "group_index gs p = group_index gs q"
    using same_y_same_group [OF wf _ _ _ gs, of p q] pq p q y by simp
  have P: "group_index gs p < length gs \<and>
      group_offset gs p < length (gs ! group_index gs p) \<and>
      gs ! group_index gs p ! group_offset gs p = concat gs ! p"
    using p(1) cc by (intro group_offset_nth) simp
  have Q: "group_index gs q < length gs \<and>
      group_offset gs q < length (gs ! group_index gs q) \<and>
      gs ! group_index gs q ! group_offset gs q = concat gs ! q"
    using q(1) cc by (intro group_offset_nth) simp
  have lt: "group_offset gs p < group_offset gs q"
    using pq same by (rule group_offset_mono)
  let ?g = "gs ! group_index gs q"
  have "?g \<in> set gs" using Q by simp
  moreover have "?g ! group_offset gs p = a" using P same cc p(2) by simp
  moreover have "?g ! group_offset gs q = b" using Q cc q(2) by simp
  ultimately show ?thesis using gs lt Q by blast
qed

text \<open>
  C7 (left-to-right tie-break). In any input without empty boxes, two detections with
  equal y-centre and different x-minimum lie in one line group, the one with the smaller
  x-minimum first. When the input consists of just these two, both input orders give the
  same group and the same Extracted Document, the left text, a space, the right text.
\<close>

theorem left_to_right_tie_break:
  assumes "well_formed results" and "a \<in> set results" and "b \<in> set results"
    and "y_center a = y_center b" and "x_min a < x_min b"
  shows "(\<exists>gs g i j. line_groups_of results = Inr gs \<and> g \<in> set gs \<and> i < j \<and> j < length g \<and>
      g ! i = a \<and> g ! j = b) \<and>
    line_groups_of [a, b] = Inr [[a, b]] \<and> line_groups_of [b, a] = Inr [[a, b]] \<and>
    extracted_text [a, b] = Inr (text_of a @ str '' '' @ text_of b) \<and>
    extracted_text [b, a] = extracted_text [a, b]"
proof -
  have ne: "fst a \<noteq> []" "fst b \<noteq> []"
    using assms(1-3) by (simp_all add: well_formed_set)
  have lt: "key_of a < key_of b"
    using assms(4,5) by (simp add: key_of_def less_prod_def)
  have wf: "well_formed [a, b]" "well_formed [b, a]"
    using ne by (simp_all add: well_formed_Cons well_formed_Nil)
  have one: "group_lines [a, b] = Inr [[a, b]]"
    using ne assms(4) by (rule pair_one_line)
  have "sort_key key_of [a, b] = [a, b]"
    using lt by (intro pair_sorted) simp
  with wf(1) one have 1: "line_groups_of [a, b] = Inr [[a, b]]"
    by (simp only: line_groups_of_well_formed)
  have "sort_key key_of [b, a] = [a, b]"
    using lt by (rule pair_swapped)
  with wf(2) one have 2: "line_groups_of [b, a] = Inr [[a, b]]"
    by (simp only: line_groups_of_well_formed)
  have 3: "extracted_text [a, b] = Inr (text_of a @ str '' '' @ text_of b)"
    using 1 by (rule pair_text)
  have 4: "extracted_text [b, a] = extracted_text [a, b]"
    using 1 2 by (simp add: extracted_text_def)
  from same_line_in_order [OF assms] 1 2 3 4 show ?thesis by blast
qed

theorem left_to_right_tie_break_witness:
  "well_formed [there, goodbye, hello] \<and> hello \<in> set [there, goodbye, hello] \<and>
   there \<in> set [there, goodbye, hello] \<and> y_center hello = y_center there \<and>
   x_min hello < x_min there \<and>
   line_groups_of [there, goodbye, hello] = Inr [[hello, there], [goodbye]] \<and>
   extracted_text [there, hello] = Inr (str ''Hello there'') \<and>
   extracted_text [hello, there] = Inr (str ''Hello there'')"
  using left_to_right_tie_break [of "[there, goodbye, hello]" hello there]
  by (simp add: eval_defs hello_def there_def goodbye_def)

lemma stable_groups:
  assumes wf: "well_formed results"
  shows "\<exists>sd gs. sorted_results results = Inr sd \<and> line_groups_of results = Inr gs \<and>
      concat gs = sd \<and>
      (\<forall>k. filter (\<lambda>d. key_of d = k) sd = filter (\<lambda>d. key_of d = k) results) \<and>
      (\<forall>p q. p \<le> q \<and> q < length sd \<and> key_of (sd ! p) = key_of (sd ! q) \<longrightarrow>
         group_index gs p = group_index gs q)"
proof -
  let ?sd = "sort_key key_of results"
  have "well_formed ?sd" using wf by (simp add: well_formed_sort_key)
  from group_lines_total [OF this] obtain gs where
    gl: "group_lines ?sd = Inr gs" and cc: "concat gs = ?sd"
    by blast
  have gs: "line_groups_of results = Inr gs"
    using wf gl by (simp add: line_groups_of_well_formed)
  have 1: "sorted_results results = Inr ?sd"
    using wf by (rule sorted_results_well_formed)
  have 2: "filter (\<lambda>d. key_of d = k) ?sd = filter (\<lambda>d. key_of d = k) results" for k
    by (rule sort_key_stable)
  have 3: "group_index gs p = group_index gs q"
    if "p \<le> q \<and> q < length ?sd \<and> key_of (?sd ! p) = key_of (?sd ! q)" for p q
  proof -
    from that have "y_center (?sd ! p) = y_center (?sd ! q)"
      by (simp add: key_of_def)
    with that show ?thesis
      using same_y_same_group [OF wf _ _ _ gs, of p q] by simp
  qed
  from 1 gs cc 2 3 show ?thesis by blast
qed

text \<open>
  C10 (stable sort). When no bounding box is empty, the detections with any given key
  (y-centre, x-minimum) appear in the sorted sequence, and so in the concatenated line
  groups, in the order they have in the input; detections with equal keys lie in the
  same line group. Hence an input of two detections with equal keys yields one line
  containing the two texts in input order, and the Extracted Document depends on that order.
\<close>

theorem sort_is_stable:
  assumes "well_formed results"
  shows "(\<exists>sd gs. sorted_results results = Inr sd \<and> line_groups_of results = Inr gs \<and>
      concat gs = sd \<and>
      (\<forall>k. filter (\<lambda>d. key_of d = k) sd = filter (\<lambda>d. key_of d = k) results) \<and>
      (\<forall>p q. p \<le> q \<and> q < length sd \<and> key_of (sd ! p) = key_of (sd ! q) \<longrightarrow>
         group_index gs p = group_index gs q)) \<and>
    (\<forall>a b. results = [a, b] \<and> key_of a = key_of b \<longrightarrow>
       line_groups_of results = Inr [[a, b]] \<and>
       extracted_text results = Inr (text_of a @ str '' '' @ text_of b))"
proof -
  have "line_groups_of results = Inr [[a, b]] \<and>
       extracted_text results = Inr (text_of a @ str '' '' @ text_of b)"
    if ab: "results = [a, b] \<and> key_of a = key_of b" for a b
  proof -
    have ne: "fst a \<noteq> []" "fst b \<noteq> []"
      using assms ab by (simp_all add: well_formed_Cons)
    have "y_center a = y_center b" using ab by (simp add: key_of_def)
    with ne have "group_lines [a, b] = Inr [[a, b]]" by (rule pair_one_line)
    moreover have "sort_key key_of [a, b] = [a, b]"
      using ab by (intro pair_sorted) simp
    ultimately have "line_groups_of results = Inr [[a, b]]"
      using assms ab by (simp only: line_groups_of_well_formed)
    then show ?thesis using pair_text by blast
  qed
  with stable_groups [OF assms] show ?thesis by blast
qed

theorem sort_is_stable_witness:
  "well_formed [tie2, tie1] \<and> key_of tie1 = key_of tie2 \<and>
   extracted_text [tie2, tie1] = Inr (str ''y x'') \<and>
   extracted_text [tie1, tie2] = Inr (str ''x y'') \<and>
   extracted_text [tie2, tie1] \<noteq> extracted_text [tie1, tie2]"
  using sort_is_stable [of "[tie2, tie1]"]
  by (simp add: eval_defs tie1_def tie2_def)

section \<open>When the reconstruction raises\<close>

text \<open>
  The post-processing code raises exactly when some bounding box is empty, and then it
  is the division by zero of \<^verbatim>\<open>get_y_center\<close> during the sort.
\<close>

lemma extracted_text_well_formed:
  "well_formed ds \<Longrightarrow> \<exists>doc. extracted_text ds = Inr doc"
proof -
  assume wf: "well_formed ds"
  then have "well_formed (sort_key key_of ds)" by (simp add: well_formed_sort_key)
  from group_lines_total [OF this] wf show ?thesis
    by (auto simp add: extracted_text_def line_groups_of_well_formed)
qed

lemma extracted_text_raises:
  "extracted_text ds = Inl e \<longleftrightarrow> \<not> well_formed ds \<and> e = ZeroDivisionError"
  using extracted_text_well_formed [of ds] extracted_text_ill_formed [of ds]
  by (cases "well_formed ds") auto

end
